theory Spec2Isabelle
  imports Main "HOL-Library.Word"
begin

section \<open>The ring buffer of ring\_buffer.c\<close>

text \<open>
  The C sources are \<^verbatim>\<open>ring_buffer.h\<close> (the struct \<^verbatim>\<open>t_rb\<close>) and
  \<^verbatim>\<open>ring_buffer.c\<close> (\<^verbatim>\<open>rb_push\<close>, \<^verbatim>\<open>rb_pop\<close>, \<^verbatim>\<open>rb_init\<close>, \<^verbatim>\<open>rb_clean\<close>).
  \<^verbatim>\<open>size_t\<close> is taken as a 64-bit unsigned word, \<^verbatim>\<open>uint8_t\<close> as an 8-bit word, and the
  \<^verbatim>\<open>int\<close> return codes (0 and -1) as integers.
\<close>

subsection \<open>Memory\<close>

text \<open>
  The heap is the list of blocks \<^verbatim>\<open>malloc\<close> has handed out; a block's address is its
  position in that list and a freed block is \<open>None\<close>. A pointer is \<open>None\<close> (the C
  \<^verbatim>\<open>NULL\<close>) or the address of a block. What C leaves undefined is a fault: reading or
  writing through \<^verbatim>\<open>NULL\<close>, through a pointer to a freed block, or beyond the end of a
  block, and freeing a pointer that is not a live block.
\<close>

type_synonym addr = nat
type_synonym heap = "8 word list option list"

datatype fault = Null_deref | Dangling | Out_of_bounds | Invalid_free

definition block :: "heap \<Rightarrow> addr \<Rightarrow> 8 word list option" where
  "block h a = (if a < length h then h ! a else None)"

definition load :: "heap \<Rightarrow> addr option \<Rightarrow> 64 word \<Rightarrow> fault + 8 word" where
  "load h p i =
     (case p of
        None \<Rightarrow> Inl Null_deref
      | Some a \<Rightarrow>
          (case block h a of
             None \<Rightarrow> Inl Dangling
           | Some xs \<Rightarrow> if unat i < length xs then Inr (xs ! unat i) else Inl Out_of_bounds))"

definition store :: "heap \<Rightarrow> addr option \<Rightarrow> 64 word \<Rightarrow> 8 word \<Rightarrow> fault + heap" where
  "store h p i v =
     (case p of
        None \<Rightarrow> Inl Null_deref
      | Some a \<Rightarrow>
          (case block h a of
             None \<Rightarrow> Inl Dangling
           | Some xs \<Rightarrow>
               if unat i < length xs then Inr (h[a := Some (xs[unat i := v])])
               else Inl Out_of_bounds))"

text \<open>
  \<^verbatim>\<open>malloc(n)\<close> may fail and return \<^verbatim>\<open>NULL\<close>, and the bytes of a new block are
  indeterminate: both are parameters, \<open>ok\<close> and \<open>junk\<close>. (For \<open>n = 0\<close> an implementation
  returns either \<^verbatim>\<open>NULL\<close> or a block of no bytes; the two values of \<open>ok\<close> cover both.)
\<close>

definition malloc :: "heap \<Rightarrow> bool \<Rightarrow> (nat \<Rightarrow> 8 word) \<Rightarrow> nat \<Rightarrow> addr option \<times> heap" where
  "malloc h ok junk n =
     (if ok then (Some (length h), h @ [Some (map junk [0..<n])]) else (None, h))"

definition free :: "heap \<Rightarrow> addr \<Rightarrow> fault + heap" where
  "free h a = (case block h a of None \<Rightarrow> Inl Invalid_free | Some xs \<Rightarrow> Inr (h[a := None]))"

subsection \<open>The struct and its four operations\<close>

record t_rb =
  buffer :: "addr option"
  head :: "64 word"
  tail :: "64 word"
  maxlen :: "64 word"

text \<open>
  \<^verbatim>\<open>rb_push\<close> (ring\_buffer.c, lines 3 to 15). The struct and the heap are passed in and
  returned; the first component of the result is the C return value.
\<close>

definition rb_push :: "t_rb \<Rightarrow> heap \<Rightarrow> 8 word \<Rightarrow> fault + (int \<times> t_rb \<times> heap)" where
  "rb_push c h data =
     (let next = head c + 1;
          next = (if next \<ge> maxlen c then 0 else next)
      in if next = tail c then Inr (- 1, c, h)
         else (case store h (buffer c) (head c) data of
                 Inl e \<Rightarrow> Inl e
               | Inr h' \<Rightarrow> Inr (0, c\<lparr>head := next\<rparr>, h')))"

text \<open>
  \<^verbatim>\<open>rb_pop\<close> (lines 17 to 29). The last argument is the byte \<^verbatim>\<open>*data\<close> of the caller
  before the call, the last component of the result that byte after the call. The caller's
  byte is an object of its own, outside the heap blocks.
\<close>

definition rb_pop :: "t_rb \<Rightarrow> heap \<Rightarrow> 8 word \<Rightarrow> fault + (int \<times> t_rb \<times> heap \<times> 8 word)" where
  "rb_pop c h data =
     (if head c = tail c then Inr (- 1, c, h, data)
      else
        (let next = tail c + 1;
             next = (if next \<ge> maxlen c then 0 else next)
         in case load h (buffer c) (tail c) of
              Inl e \<Rightarrow> Inl e
            | Inr v \<Rightarrow> Inr (0, c\<lparr>tail := next\<rparr>, h, v)))"

text \<open>
  \<^verbatim>\<open>rb_init\<close> (lines 31 to 37): \<^verbatim>\<open>size * sizeof(uint8_t)\<close> is \<^verbatim>\<open>size\<close> (here \<open>sz\<close>), and the result
  of \<^verbatim>\<open>malloc\<close> is stored unchecked.
\<close>

definition rb_init :: "t_rb \<Rightarrow> heap \<Rightarrow> 64 word \<Rightarrow> bool \<Rightarrow> (nat \<Rightarrow> 8 word) \<Rightarrow> t_rb \<times> heap" where
  "rb_init c h sz ok junk =
     (let c1 = c\<lparr>head := 0, tail := 0, maxlen := sz\<rparr>;
          (p, h') = malloc h ok junk (unat sz)
      in (c1\<lparr>buffer := p\<rparr>, h'))"

text \<open>\<^verbatim>\<open>rb_clean\<close> (lines 39 to 47).\<close>

definition rb_clean :: "t_rb \<Rightarrow> heap \<Rightarrow> fault + (t_rb \<times> heap)" where
  "rb_clean c h =
     (case (case buffer c of None \<Rightarrow> Inr h | Some a \<Rightarrow> free h a) of
        Inl e \<Rightarrow> Inl e
      | Inr h' \<Rightarrow> Inr (c\<lparr>buffer := None, head := 0, tail := 0, maxlen := 0\<rparr>, h'))"

subsection \<open>Callers\<close>

text \<open>
  A caller, as \<^verbatim>\<open>main\<close> of example.c, owns the struct and one byte \<^verbatim>\<open>data\<close> and makes a
  sequence of calls. \<open>run\<close> makes the calls in order and records, for each, the call, its
  return value and the caller's byte after it; it stops at the first fault.
\<close>

datatype op = Push "8 word" | Pop

type_synonym world = "t_rb \<times> heap \<times> 8 word"
type_synonym trace = "(op \<times> int \<times> 8 word) list"

fun step :: "world \<Rightarrow> op \<Rightarrow> fault + (int \<times> world)" where
  "step (c, h, d) (Push v) =
     (case rb_push c h v of Inl e \<Rightarrow> Inl e | Inr (r, c', h') \<Rightarrow> Inr (r, (c', h', d)))"
| "step (c, h, d) Pop =
     (case rb_pop c h d of Inl e \<Rightarrow> Inl e | Inr (r, c', h', d') \<Rightarrow> Inr (r, (c', h', d')))"

fun run :: "world \<Rightarrow> op list \<Rightarrow> fault + (trace \<times> world)" where
  "run w [] = Inr ([], w)"
| "run w (x # xs) =
     (case step w x of
        Inl e \<Rightarrow> Inl e
      | Inr (r, w') \<Rightarrow>
          (case run w' xs of
             Inl e \<Rightarrow> Inl e
           | Inr (tr, w'') \<Rightarrow> Inr ((x, r, snd (snd w')) # tr, w'')))"

text \<open>The bytes of the pushes that returned 0, and the bytes the pops that returned 0 gave.\<close>

fun pushed :: "trace \<Rightarrow> 8 word list" where
  "pushed [] = []"
| "pushed ((Push v, r, d) # tr) = (if r = 0 then v # pushed tr else pushed tr)"
| "pushed ((Pop, r, d) # tr) = pushed tr"

fun popped :: "trace \<Rightarrow> 8 word list" where
  "popped [] = []"
| "popped ((Push v, r, d) # tr) = popped tr"
| "popped ((Pop, r, d) # tr) = (if r = 0 then d # popped tr else popped tr)"

text \<open>
  The struct describes a buffer of the data model of the specification (storage of
  \<open>capacity\<close> bytes) when its pointer is a live block of \<open>maxlen\<close> bytes.
\<close>

definition storage_ok :: "t_rb \<Rightarrow> heap \<Rightarrow> bool" where
  "storage_ok c h =
     (case buffer c of
        None \<Rightarrow> False
      | Some a \<Rightarrow> (case block h a of None \<Rightarrow> False | Some xs \<Rightarrow> length xs = unat (maxlen c)))"

text \<open>One byte of the heap: the byte at offset \<open>i\<close> of the live block \<open>a\<close>, if there is one.\<close>

definition byte :: "heap \<Rightarrow> addr \<Rightarrow> nat \<Rightarrow> 8 word option" where
  "byte h a i =
     (case block h a of None \<Rightarrow> None | Some xs \<Rightarrow> if i < length xs then Some (xs ! i) else None)"

subsection \<open>The queue a struct stands for\<close>

text \<open>
  The invariant of the data model: the storage is a live block of \<open>maxlen\<close> bytes and
  both cursors are indices into it.
\<close>

definition rb_inv :: "t_rb \<Rightarrow> heap \<Rightarrow> bool" where
  "rb_inv c h \<longleftrightarrow> storage_ok c h \<and> head c < maxlen c \<and> tail c < maxlen c"

text \<open>
  The occupied element count of the specification, \<open>(head - tail + capacity) % capacity\<close>,
  and the occupied bytes from \<open>tail\<close> up to \<open>head\<close>, oldest first.
\<close>

definition count :: "t_rb \<Rightarrow> nat" where
  "count c = (unat (head c) + unat (maxlen c) - unat (tail c)) mod unat (maxlen c)"

definition ring :: "8 word list \<Rightarrow> nat \<Rightarrow> nat \<Rightarrow> 8 word list" where
  "ring xs t n = map (\<lambda>i. xs ! ((t + i) mod length xs)) [0..<n]"

definition contents :: "t_rb \<Rightarrow> heap \<Rightarrow> 8 word list" where
  "contents c h =
     (case buffer c of
        None \<Rightarrow> []
      | Some a \<Rightarrow>
          (case block h a of None \<Rightarrow> [] | Some xs \<Rightarrow> ring xs (unat (tail c)) (count c)))"

text \<open>The return values of a trace.\<close>

definition returns :: "trace \<Rightarrow> int list" where
  "returns tr = map (\<lambda>e. fst (snd e)) tr"

section \<open>Auxiliary facts\<close>

subsection \<open>Advancing a cursor\<close>

text \<open>
  Below the capacity the increment does not overflow, and the comparison that resets the
  cursor to 0 computes \<open>(x + 1) mod m\<close>.
\<close>

lemma unat_succ:
  fixes x m :: "64 word"
  assumes "x < m"
  shows "unat (x + 1) = unat x + 1"
proof -
  from assms have "unat x < unat m" by (simp add: word_less_nat_alt)
  moreover have "unat m < 2 ^ LENGTH(64)" by (rule unsigned_less)
  ultimately have "unat x + unat (1 :: 64 word) < 2 ^ LENGTH(64)" by simp
  then have "unat (x + 1) = unat x + unat (1 :: 64 word)" by (simp only: unat_add_lem)
  then show ?thesis by simp
qed

lemma next_unat:
  fixes x m :: "64 word"
  assumes "x < m"
  shows "unat (if x + 1 \<ge> m then 0 else x + 1) = (unat x + 1) mod unat m"
proof -
  from assms have lt: "unat x < unat m" by (simp add: word_less_nat_alt)
  have u: "unat (x + 1) = unat x + 1" using assms by (rule unat_succ)
  show ?thesis
  proof (cases "x + 1 \<ge> m")
    case True
    then have "unat m \<le> unat x + 1" using u by (simp add: word_le_nat_alt)
    with lt have "unat x + 1 = unat m" by simp
    with True show ?thesis by simp
  next
    case False
    then have "unat x + 1 < unat m" using u by (simp add: word_le_nat_alt)
    with False u show ?thesis by simp
  qed
qed

lemma next_mod:
  fixes x m :: "64 word"
  assumes "x < m"
  shows "(if x + 1 \<ge> m then 0 else x + 1) = (x + 1) mod m"
proof -
  have "unat ((x + 1) mod m) = unat (x + 1) mod unat m" by (rule unat_mod)
  also have "\<dots> = (unat x + 1) mod unat m" using assms by (simp add: unat_succ)
  finally show ?thesis using next_unat [OF assms] by (simp only: word_unat_eq_iff)
qed

lemma next_less:
  fixes x m :: "64 word"
  assumes "x < m"
  shows "(if x + 1 \<ge> m then 0 else x + 1) < m"
proof -
  from assms have "0 < unat m" by (simp add: word_less_nat_alt)
  then have "(unat x + 1) mod unat m < unat m" by simp
  then show ?thesis using next_unat [OF assms] by (simp only: word_less_nat_alt)
qed

subsection \<open>The element count, on natural numbers\<close>

lemma mod_twice:
  fixes x C :: nat
  assumes "x < 2 * C"
  shows "x mod C = (if x < C then x else x - C)"
proof (cases "x < C")
  case True then show ?thesis by simp
next
  case False
  then have "x mod C = (x - C) mod C" by (simp add: le_mod_geq)
  also have "\<dots> = x - C" using assms by simp
  finally show ?thesis using False by simp
qed

lemma ring_count_char:
  fixes H T C n :: nat
  assumes "H < C" "T < C" "n < C"
  shows "(T + n) mod C = H \<longleftrightarrow> n = (H + C - T) mod C"
  using assms by (simp add: mod_twice; arith)

lemma count_push:
  fixes H T C :: nat
  assumes "H < C" "T < C" "(H + 1) mod C \<noteq> T"
  shows "((H + 1) mod C + C - T) mod C = (H + C - T) mod C + 1"
proof (cases "H + 1 < C")
  case True
  with assms have "H + 1 \<noteq> T" by simp
  with True assms show ?thesis by (simp add: mod_twice; arith)
next
  case False
  with assms have eq: "H + 1 = C" by simp
  with assms have "0 < T" by (cases T) simp_all
  with eq assms show ?thesis by (simp add: mod_twice; arith)
qed

lemma count_full:
  fixes H T C :: nat
  assumes "H < C" "T < C"
  shows "(H + 1) mod C = T \<longleftrightarrow> (H + C - T) mod C = C - 1"
  using assms by (simp add: mod_twice; arith)

lemma count_empty:
  fixes H T C :: nat
  assumes "H < C" "T < C"
  shows "H = T \<longleftrightarrow> (H + C - T) mod C = 0"
  using assms by (simp add: mod_twice; arith)

lemma count_pop:
  fixes H T C :: nat
  assumes "H < C" "T < C" "H \<noteq> T"
  shows "(H + C - (T + 1) mod C) mod C = (H + C - T) mod C - 1"
  using assms by (simp add: mod_twice; arith)


subsection \<open>The occupied bytes\<close>

lemma mod_inj_below:
  fixes T C i n :: nat
  assumes "T < C" "i < C" "n < C" "(T + i) mod C = (T + n) mod C"
  shows "i = n"
  using assms by (simp add: mod_twice split: if_splits; arith)

lemma length_ring: "length (ring xs t n) = n"
  by (simp add: ring_def)

lemma ring_snoc:
  assumes "T < length xs" "n < length xs"
  shows "ring (xs[(T + n) mod length xs := v]) T (Suc n) = ring xs T n @ [v]"
proof -
  let ?C = "length xs"
  have pos: "0 < ?C" using assms by (cases xs) simp_all
  have old: "xs[(T + n) mod ?C := v] ! ((T + i) mod ?C) = xs ! ((T + i) mod ?C)" if "i < n" for i
  proof -
    from that assms have "i < ?C" by simp
    with that assms have "(T + i) mod ?C \<noteq> (T + n) mod ?C"
      using mod_inj_below [of T ?C i n] by auto
    then show ?thesis by simp
  qed
  have new: "xs[(T + n) mod ?C := v] ! ((T + n) mod ?C) = v" using pos by simp
  show ?thesis using old new by (simp add: ring_def)
qed

lemma ring_hd:
  assumes "0 < n" "T < length xs"
  shows "hd (ring xs T n) = xs ! T"
proof -
  from assms(1) have "[0..<n] = 0 # [1..<n]" by (simp add: upt_conv_Cons)
  then show ?thesis using assms(2) by (simp add: ring_def)
qed

lemma ring_tl:
  shows "ring xs ((T + 1) mod length xs) (n - 1) = tl (ring xs T n)"
proof -
  have "tl (ring xs T n) = map (\<lambda>i. xs ! ((T + i) mod length xs)) (tl [0..<n])"
    by (simp only: ring_def map_tl)
  also have "tl [0..<n] = map Suc [0..<n - 1]"
    by (cases n) (simp_all add: map_Suc_upt)
  also have "map (\<lambda>i. xs ! ((T + i) mod length xs)) (map Suc [0..<n - 1]) =
             map (\<lambda>i. xs ! (((T + 1) mod length xs + i) mod length xs)) [0..<n - 1]"
    by (simp add: mod_add_left_eq)
  finally show ?thesis by (simp add: ring_def)
qed

subsection \<open>One call on a buffer that satisfies the invariant\<close>

lemma storage_okE:
  assumes "storage_ok c h"
  obtains a xs where "buffer c = Some a" "block h a = Some xs" "length xs = unat (maxlen c)"
  using assms by (auto simp: storage_ok_def split: option.splits)

lemma block_update_same:
  "block h a = Some xs \<Longrightarrow> block (h[a := y]) a = y"
  by (auto simp: block_def split: if_splits)

lemma rb_push_eq:
  assumes "buffer c = Some a" "block h a = Some xs" "length xs = unat (maxlen c)"
    and "head c < maxlen c"
  shows "rb_push c h v =
           (if (head c + 1) mod maxlen c = tail c then Inr (- 1, c, h)
            else Inr (0, c\<lparr>head := (head c + 1) mod maxlen c\<rparr>,
                      h[a := Some (xs[unat (head c) := v])]))"
proof -
  have "unat (head c) < length xs" using assms by (simp add: word_less_nat_alt)
  then show ?thesis
    using assms(1,2) next_mod [OF assms(4)]
    by (simp add: rb_push_def store_def Let_def)
qed

lemma rb_pop_eq:
  assumes "buffer c = Some a" "block h a = Some xs" "length xs = unat (maxlen c)"
    and "tail c < maxlen c"
  shows "rb_pop c h d =
           (if head c = tail c then Inr (- 1, c, h, d)
            else Inr (0, c\<lparr>tail := (tail c + 1) mod maxlen c\<rparr>, h, xs ! unat (tail c)))"
proof -
  have "unat (tail c) < length xs" using assms by (simp add: word_less_nat_alt)
  then show ?thesis
    using assms(1,2) next_mod [OF assms(4)]
    by (simp add: rb_pop_def load_def Let_def)
qed

lemma unat_next:
  fixes x m :: "64 word"
  assumes "x < m"
  shows "unat ((x + 1) mod m) = (unat x + 1) mod unat m" "(x + 1) mod m < m"
  using next_unat [OF assms] next_less [OF assms] next_mod [OF assms] by simp_all

lemma count_less:
  assumes "head c < maxlen c"
  shows "count c < unat (maxlen c)"
proof -
  from assms have "0 < unat (maxlen c)" by (simp add: word_less_nat_alt)
  then show ?thesis by (simp add: count_def)
qed

lemma push_step:
  assumes "rb_inv c h"
  shows "(count c = unat (maxlen c) - 1 \<longrightarrow> rb_push c h v = Inr (- 1, c, h)) \<and>
         (count c \<noteq> unat (maxlen c) - 1 \<longrightarrow>
            (\<exists>c' h'. rb_push c h v = Inr (0, c', h') \<and> rb_inv c' h' \<and> maxlen c' = maxlen c \<and>
                     count c' = count c + 1 \<and> contents c' h' = contents c h @ [v]))"
proof -
  from assms have ok: "storage_ok c h" and hd: "head c < maxlen c" and tl: "tail c < maxlen c"
    by (simp_all add: rb_inv_def)
  from ok obtain a xs where a: "buffer c = Some a" and xs: "block h a = Some xs"
    and len: "length xs = unat (maxlen c)" by (rule storage_okE)
  let ?H = "unat (head c)" and ?T = "unat (tail c)" and ?C = "unat (maxlen c)"
  let ?n = "(head c + 1) mod maxlen c"
  have H: "?H < ?C" and T: "?T < ?C" using hd tl by (simp_all add: word_less_nat_alt)
  have n: "unat ?n = (?H + 1) mod ?C" and nlt: "?n < maxlen c" using unat_next [OF hd] by simp_all
  have full: "?n = tail c \<longleftrightarrow> count c = ?C - 1"
    using count_full [OF H T] n by (simp add: word_unat_eq_iff count_def)
  note eq = rb_push_eq [OF a xs len hd, of v]
  show ?thesis
  proof (intro conjI impI)
    assume "count c = ?C - 1"
    with full eq show "rb_push c h v = Inr (- 1, c, h)" by simp
  next
    assume nf: "count c \<noteq> ?C - 1"
    let ?c' = "c\<lparr>head := ?n\<rparr>" and ?h' = "h[a := Some (xs[?H := v])]"
    from nf full have ne: "?n \<noteq> tail c" by simp
    then have ne': "(?H + 1) mod ?C \<noteq> ?T" using n by (simp add: word_unat_eq_iff)
    have r: "rb_push c h v = Inr (0, ?c', ?h')" using eq ne by simp
    have blk: "block ?h' a = Some (xs[?H := v])" using xs by (rule block_update_same)
    have inv': "rb_inv ?c' ?h'"
      using a blk len nlt tl by (simp add: rb_inv_def storage_ok_def)
    have cnt: "count ?c' = count c + 1"
      using count_push [OF H T ne'] n by (simp add: count_def)
    have "(?T + count c) mod ?C = ?H"
      using ring_count_char [OF H T count_less [OF hd]] by (simp add: count_def)
    then have "ring (xs[?H := v]) ?T (Suc (count c)) = ring xs ?T (count c) @ [v]"
      using ring_snoc [of ?T xs "count c" v] T count_less [OF hd] len by simp
    then have cont: "contents ?c' ?h' = contents c h @ [v]"
      using a xs blk cnt by (simp add: contents_def)
    show "\<exists>c' h'. rb_push c h v = Inr (0, c', h') \<and> rb_inv c' h' \<and> maxlen c' = maxlen c \<and>
                     count c' = count c + 1 \<and> contents c' h' = contents c h @ [v]"
      using r inv' cnt cont by simp
  qed
qed

lemma pop_step:
  assumes "rb_inv c h"
  shows "(count c = 0 \<longrightarrow> rb_pop c h d = Inr (- 1, c, h, d)) \<and>
         (count c \<noteq> 0 \<longrightarrow>
            (\<exists>c'. rb_pop c h d = Inr (0, c', h, hd (contents c h)) \<and> rb_inv c' h \<and>
                  maxlen c' = maxlen c \<and> count c' = count c - 1 \<and>
                  contents c' h = tl (contents c h)))"
proof -
  from assms have ok: "storage_ok c h" and hd: "head c < maxlen c" and tl: "tail c < maxlen c"
    by (simp_all add: rb_inv_def)
  from ok obtain a xs where a: "buffer c = Some a" and xs: "block h a = Some xs"
    and len: "length xs = unat (maxlen c)" by (rule storage_okE)
  let ?H = "unat (head c)" and ?T = "unat (tail c)" and ?C = "unat (maxlen c)"
  let ?n = "(tail c + 1) mod maxlen c"
  have H: "?H < ?C" and T: "?T < ?C" using hd tl by (simp_all add: word_less_nat_alt)
  have n: "unat ?n = (?T + 1) mod ?C" and nlt: "?n < maxlen c" using unat_next [OF tl] by simp_all
  have empty: "head c = tail c \<longleftrightarrow> count c = 0"
    using count_empty [OF H T] by (simp add: word_unat_eq_iff count_def)
  note eq = rb_pop_eq [OF a xs len tl, of d]
  show ?thesis
  proof (intro conjI impI)
    assume "count c = 0"
    with empty eq show "rb_pop c h d = Inr (- 1, c, h, d)" by simp
  next
    assume ne: "count c \<noteq> 0"
    let ?c' = "c\<lparr>tail := ?n\<rparr>"
    from ne empty have neq: "head c \<noteq> tail c" by simp
    then have neq': "?H \<noteq> ?T" by (simp add: word_unat_eq_iff)
    have "hd (contents c h) = xs ! ?T"
      using a xs ne T len ring_hd [of "count c" ?T xs] by (simp add: contents_def)
    then have r: "rb_pop c h d = Inr (0, ?c', h, hd (contents c h))" using eq neq by simp
    have inv': "rb_inv ?c' h"
      using a xs len nlt hd by (simp add: rb_inv_def storage_ok_def)
    have cnt: "count ?c' = count c - 1"
      using count_pop [OF H T neq'] n by (simp add: count_def)
    have cont: "contents ?c' h = tl (contents c h)"
      using a xs cnt n len ring_tl [of xs ?T "count c"] by (simp add: contents_def)
    show "\<exists>c'. rb_pop c h d = Inr (0, c', h, hd (contents c h)) \<and> rb_inv c' h \<and>
                  maxlen c' = maxlen c \<and> count c' = count c - 1 \<and>
                  contents c' h = tl (contents c h)"
      using r inv' cnt cont by simp
  qed
qed

subsection \<open>Sequences of calls\<close>

lemma length_contents:
  assumes "storage_ok c h"
  shows "length (contents c h) = count c"
  using assms by (auto simp: contents_def storage_ok_def length_ring split: option.splits)

lemma pushed_Cons: "pushed (e # tr) = pushed [e] @ pushed tr"
proof -
  obtain x r d where "e = (x, r, d)" by (cases e) auto
  then show ?thesis by (cases x) simp_all
qed

lemma popped_Cons: "popped (e # tr) = popped [e] @ popped tr"
proof -
  obtain x r d where "e = (x, r, d)" by (cases e) auto
  then show ?thesis by (cases x) simp_all
qed

lemma step_inv:
  assumes "rb_inv c h"
  shows "\<exists>r c' h' d'. step (c, h, d) x = Inr (r, (c', h', d')) \<and> rb_inv c' h' \<and>
           maxlen c' = maxlen c \<and> (r = 0 \<or> r = - 1) \<and>
           contents c h @ pushed [(x, r, d')] = popped [(x, r, d')] @ contents c' h'"
proof (cases x)
  case (Push v)
  show ?thesis
  proof (cases "count c = unat (maxlen c) - 1")
    case True
    with push_step [OF assms, of v] have "rb_push c h v = Inr (- 1, c, h)" by simp
    with Push assms show ?thesis by simp
  next
    case False
    with push_step [OF assms, of v] obtain c' h' where
      "rb_push c h v = Inr (0, c', h')" "rb_inv c' h'" "maxlen c' = maxlen c"
      "contents c' h' = contents c h @ [v]" by blast
    with Push show ?thesis by simp
  qed
next
  case Pop
  show ?thesis
  proof (cases "count c = 0")
    case True
    with pop_step [OF assms, of d] have "rb_pop c h d = Inr (- 1, c, h, d)" by simp
    with Pop assms show ?thesis by simp
  next
    case False
    with pop_step [OF assms, of d] obtain c' where
      r: "rb_pop c h d = Inr (0, c', h, hd (contents c h))" and i: "rb_inv c' h"
      and m: "maxlen c' = maxlen c" and t: "contents c' h = tl (contents c h)" by blast
    from assms have "length (contents c h) = count c"
      by (simp add: rb_inv_def length_contents)
    with False have "contents c h \<noteq> []" by auto
    then have "contents c h = hd (contents c h) # contents c' h" using t by simp
    with Pop r i m show ?thesis by simp
  qed
qed

lemma run_inv:
  assumes "rb_inv c h"
  shows "\<exists>tr c' h' d'. run (c, h, d) ops = Inr (tr, (c', h', d')) \<and> rb_inv c' h' \<and>
           maxlen c' = maxlen c \<and>
           contents c h @ pushed tr = popped tr @ contents c' h'"
  using assms
proof (induction ops arbitrary: c h d)
  case Nil
  then show ?case by simp
next
  case (Cons x ops)
  from step_inv [OF Cons.prems, of d x] obtain r c1 h1 d1 where
    s: "step (c, h, d) x = Inr (r, (c1, h1, d1))" and i: "rb_inv c1 h1"
    and m: "maxlen c1 = maxlen c"
    and f: "contents c h @ pushed [(x, r, d1)] = popped [(x, r, d1)] @ contents c1 h1"
    by blast
  from Cons.IH [OF i, of d1] obtain tr c2 h2 d2 where
    r2: "run (c1, h1, d1) ops = Inr (tr, (c2, h2, d2))" and i2: "rb_inv c2 h2"
    and m2: "maxlen c2 = maxlen c1"
    and f2: "contents c1 h1 @ pushed tr = popped tr @ contents c2 h2"
    by blast
  have run: "run (c, h, d) (x # ops) = Inr ((x, r, d1) # tr, (c2, h2, d2))"
    using s r2 by simp
  have "contents c h @ pushed ((x, r, d1) # tr) = (contents c h @ pushed [(x, r, d1)]) @ pushed tr"
    by (simp add: pushed_Cons [of _ tr])
  also have "\<dots> = popped [(x, r, d1)] @ (contents c1 h1 @ pushed tr)" using f by simp
  also have "\<dots> = popped ((x, r, d1) # tr) @ contents c2 h2"
    using f2 by (simp add: popped_Cons [of _ tr])
  finally show ?case using run i2 m m2 by simp
qed

lemma run_append:
  "run w (xs @ ys) =
     (case run w xs of
        Inl e \<Rightarrow> Inl e
      | Inr (tr, w') \<Rightarrow>
          (case run w' ys of Inl e \<Rightarrow> Inl e | Inr (tr', w'') \<Rightarrow> Inr (tr @ tr', w'')))"
  by (induction xs arbitrary: w) (auto split: sum.splits prod.splits)

lemma rb_init_inv:
  assumes "rb_init c0 h0 sz True junk = (c, h)" "sz \<noteq> 0"
  shows "rb_inv c h" "maxlen c = sz" "head c = 0" "tail c = 0"
  using assms
  by (auto simp: rb_init_def malloc_def rb_inv_def storage_ok_def block_def word_neq_0_conv)

lemma rb_init_fields:
  assumes "rb_init c0 h0 sz ok junk = (c, h)"
  shows "maxlen c = sz" "head c = 0" "tail c = 0"
  using assms by (auto simp: rb_init_def malloc_def split: if_splits)

lemma count_eq_0: "head c = tail c \<Longrightarrow> count c = 0"
  by (simp add: count_def)

lemma returns_Cons: "returns ((x, r, d) # tr) = r # returns tr"
  by (simp add: returns_def)

lemma run_pushes:
  assumes "rb_inv c h"
  shows "\<exists>tr c' h'. run (c, h, d) (map Push vs) = Inr (tr, (c', h', d)) \<and> rb_inv c' h' \<and>
           maxlen c' = maxlen c \<and>
           returns tr = replicate (min (length vs) (unat (maxlen c) - 1 - count c)) 0 @
                        replicate (length vs - min (length vs) (unat (maxlen c) - 1 - count c)) (- 1) \<and>
           count c' = count c + min (length vs) (unat (maxlen c) - 1 - count c)"
  using assms
proof (induction vs arbitrary: c h)
  case Nil
  then show ?case by (simp add: returns_def)
next
  case (Cons v vs)
  let ?C = "unat (maxlen c)"
  from Cons.prems have lt: "count c < ?C" by (simp add: rb_inv_def count_less)
  show ?case
  proof (cases "count c = ?C - 1")
    case True
    with push_step [OF Cons.prems, of v] have p: "rb_push c h v = Inr (- 1, c, h)" by simp
    from Cons.IH [OF Cons.prems] obtain tr c' h' where
      r: "run (c, h, d) (map Push vs) = Inr (tr, (c', h', d))" and i: "rb_inv c' h'"
      and m: "maxlen c' = maxlen c"
      and t: "returns tr = replicate (min (length vs) (?C - 1 - count c)) 0 @
                replicate (length vs - min (length vs) (?C - 1 - count c)) (- 1)"
      and n: "count c' = count c + min (length vs) (?C - 1 - count c)" by blast
    have "run (c, h, d) (map Push (v # vs)) = Inr ((Push v, - 1, d) # tr, (c', h', d))"
      using p r by simp
    moreover have "returns ((Push v, - 1, d) # tr) =
        replicate (min (length (v # vs)) (?C - 1 - count c)) 0 @
        replicate (length (v # vs) - min (length (v # vs)) (?C - 1 - count c)) (- 1)"
      using t True by (simp add: returns_Cons)
    moreover have "count c' = count c + min (length (v # vs)) (?C - 1 - count c)"
      using n True by simp
    ultimately show ?thesis using i m by blast
  next
    case False
    with push_step [OF Cons.prems, of v] obtain c1 h1 where
      p: "rb_push c h v = Inr (0, c1, h1)" and i1: "rb_inv c1 h1"
      and m1: "maxlen c1 = maxlen c" and n1: "count c1 = count c + 1" by blast
    from Cons.IH [OF i1] obtain tr c' h' where
      r: "run (c1, h1, d) (map Push vs) = Inr (tr, (c', h', d))" and i: "rb_inv c' h'"
      and m: "maxlen c' = maxlen c1"
      and t: "returns tr = replicate (min (length vs) (unat (maxlen c1) - 1 - count c1)) 0 @
                replicate (length vs - min (length vs) (unat (maxlen c1) - 1 - count c1)) (- 1)"
      and n: "count c' = count c1 + min (length vs) (unat (maxlen c1) - 1 - count c1)" by blast
    from False lt have k: "min (length (v # vs)) (?C - 1 - count c) =
        Suc (min (length vs) (?C - 1 - (count c + 1)))" by (simp add: min_def; arith)
    have "run (c, h, d) (map Push (v # vs)) = Inr ((Push v, 0, d) # tr, (c', h', d))"
      using p r by simp
    moreover have "returns ((Push v, 0, d) # tr) =
        replicate (min (length (v # vs)) (?C - 1 - count c)) 0 @
        replicate (length (v # vs) - min (length (v # vs)) (?C - 1 - count c)) (- 1)"
      using t m1 n1 unfolding k returns_Cons by simp
    moreover have "count c' = count c + min (length (v # vs)) (?C - 1 - count c)"
      using n m1 n1 unfolding k by simp
    ultimately show ?thesis using i m m1 by (simp only:) blast
  qed
qed

lemma run_pops:
  assumes "rb_inv c h" "n \<le> count c"
  shows "\<exists>tr c' h' d'. run (c, h, d) (replicate n Pop) = Inr (tr, (c', h', d')) \<and> rb_inv c' h' \<and>
           maxlen c' = maxlen c \<and> returns tr = replicate n 0 \<and> count c' = count c - n"
  using assms
proof (induction n arbitrary: c h d)
  case 0
  then show ?case by (simp add: returns_def)
next
  case (Suc n)
  then have "count c \<noteq> 0" by simp
  with pop_step [OF Suc.prems(1), of d] obtain c1 where
    p: "rb_pop c h d = Inr (0, c1, h, hd (contents c h))" and i1: "rb_inv c1 h"
    and m1: "maxlen c1 = maxlen c" and n1: "count c1 = count c - 1" by blast
  from Suc.prems(2) n1 have "n \<le> count c1" by simp
  from Suc.IH [OF i1 this, of "hd (contents c h)"] obtain tr c' h' d' where
    r: "run (c1, h, hd (contents c h)) (replicate n Pop) = Inr (tr, (c', h', d'))"
    and i: "rb_inv c' h'" and m: "maxlen c' = maxlen c1"
    and t: "returns tr = replicate n 0" and k: "count c' = count c1 - n" by blast
  have "run (c, h, d) (replicate (Suc n) Pop) =
          Inr ((Pop, 0, hd (contents c h)) # tr, (c', h', d'))" using p r by simp
  moreover have "returns ((Pop, 0, hd (contents c h)) # tr) = replicate (Suc n) 0"
    using t by (simp add: returns_Cons)
  moreover have "count c' = count c - Suc n" using k n1 by simp
  ultimately show ?case using i m m1 by (simp only:) blast
qed

lemma push_zero: "maxlen c = 0 \<Longrightarrow> tail c = 0 \<Longrightarrow> rb_push c h v = Inr (- 1, c, h)"
  by (simp add: rb_push_def Let_def)

lemma pop_same: "head c = tail c \<Longrightarrow> rb_pop c h d = Inr (- 1, c, h, d)"
  by (simp add: rb_pop_def)

lemma run_zero:
  assumes "maxlen c = 0" "head c = 0" "tail c = 0"
  shows "\<exists>tr. run (c, h, d) ops = Inr (tr, (c, h, d)) \<and> pushed tr = [] \<and> popped tr = []"
proof (induction ops)
  case Nil
  show ?case by simp
next
  case (Cons x ops)
  then obtain tr where r: "run (c, h, d) ops = Inr (tr, (c, h, d))"
    and p: "pushed tr = []" "popped tr = []" by blast
  have "step (c, h, d) x = Inr (- 1, (c, h, d))"
    using assms by (cases x) (simp_all add: push_zero pop_same)
  then have "run (c, h, d) (x # ops) = Inr ((x, - 1, d) # tr, (c, h, d))" using r by simp
  moreover have "pushed ((x, - 1, d) # tr) = []" "popped ((x, - 1, d) # tr) = []"
    using p by (cases x; simp)+
  ultimately show ?case by blast
qed

lemma step_null:
  assumes "buffer c = None" "step (c, h, d) x = Inr (r, w)"
  shows "w = (c, h, d)"
  using assms
  by (cases x) (auto simp: rb_push_def rb_pop_def store_def load_def Let_def split: if_splits)

lemma run_null:
  assumes "buffer c = None" "run (c, h, d) ops = Inr (tr, w)"
  shows "w = (c, h, d)"
  using assms(2)
proof (induction ops arbitrary: tr)
  case Nil
  then show ?case by simp
next
  case (Cons x ops)
  from Cons.prems obtain r w1 where s: "step (c, h, d) x = Inr (r, w1)"
    by (auto split: sum.splits)
  with assms(1) have w1: "w1 = (c, h, d)" by (rule step_null)
  with Cons.prems s obtain tr' where "run (c, h, d) ops = Inr (tr', w)"
    by (auto split: sum.splits)
  then show ?case by (rule Cons.IH)
qed

lemma contents_empty: "count c = 0 \<Longrightarrow> contents c h = []"
  by (simp add: contents_def ring_def split: option.splits)

section \<open>Failing calls change nothing\<close>

text \<open>
  Claim C3. In every state, a \<^verbatim>\<open>rb_push\<close> that returns -1 (Full) leaves the struct
  (head, tail, capacity, pointer) and the whole heap as they were, and a \<^verbatim>\<open>rb_pop\<close>
  that returns -1 (Empty) leaves the struct, the heap and the caller's byte as they were.
\<close>

theorem failure_changes_nothing:
  "(rb_push c h v = Inr (- 1, c', h') \<longrightarrow> c' = c \<and> h' = h) \<and>
   (rb_pop c h d = Inr (- 1, c'', h'', d') \<longrightarrow> c'' = c \<and> h'' = h \<and> d' = d)"
  by (auto simp: rb_push_def rb_pop_def Let_def split: if_splits sum.splits)

text \<open>
  A push onto a full buffer of capacity 2 and a pop from an empty one: both return -1 and
  give back the state they were given.
\<close>

theorem failure_changes_nothing_witness:
  "rb_push \<lparr>buffer = Some 0, head = 0, tail = 1, maxlen = 2\<rparr> [Some [5, 6]] 7 =
     Inr (- 1, \<lparr>buffer = Some 0, head = 0, tail = 1, maxlen = 2\<rparr>, [Some [5, 6]]) \<and>
   rb_pop \<lparr>buffer = Some 0, head = 1, tail = 1, maxlen = 2\<rparr> [Some [5, 6]] 9 =
     Inr (- 1, \<lparr>buffer = Some 0, head = 1, tail = 1, maxlen = 2\<rparr>, [Some [5, 6]], 9)"
  using
    failure_changes_nothing
      [where c = "\<lparr>buffer = Some 0, head = 0, tail = 1, maxlen = 2\<rparr>" and h = "[Some [5, 6]]"
         and v = 7 and c' = "\<lparr>buffer = Some 0, head = 0, tail = 1, maxlen = 2\<rparr>"
         and h' = "[Some [5, 6]]"]
    failure_changes_nothing
      [where c = "\<lparr>buffer = Some 0, head = 1, tail = 1, maxlen = 2\<rparr>" and h = "[Some [5, 6]]"
         and d = 9 and c'' = "\<lparr>buffer = Some 0, head = 1, tail = 1, maxlen = 2\<rparr>"
         and h'' = "[Some [5, 6]]" and d' = 9]
  by (simp add: rb_push_def rb_pop_def word_le_nat_alt)

section \<open>What a push does\<close>

text \<open>
  Claim C4. In every state with \<open>head\<close> and \<open>tail\<close> below the capacity, \<^verbatim>\<open>rb_push\<close>
  returns -1 (Full) if and only if \<open>(head + 1) mod capacity = tail\<close>, and then it writes
  nothing: struct and heap come back as they were. Otherwise, the storage being a live block
  of \<open>capacity\<close> bytes as in the data model, it writes the byte into slot \<open>head\<close> of the
  storage, sets \<open>head\<close> to \<open>(head + 1) mod capacity\<close> and returns 0. The test is made on
  the candidate next head, before the write.
\<close>

theorem push_spec:
  assumes "head c < maxlen c" and "tail c < maxlen c"
  shows "((\<exists>c' h'. rb_push c h v = Inr (- 1, c', h')) \<longleftrightarrow> (head c + 1) mod maxlen c = tail c) \<and>
         ((head c + 1) mod maxlen c = tail c \<longrightarrow> rb_push c h v = Inr (- 1, c, h)) \<and>
         ((head c + 1) mod maxlen c \<noteq> tail c \<and> storage_ok c h \<longrightarrow>
            (\<exists>a xs. buffer c = Some a \<and> block h a = Some xs \<and>
               rb_push c h v =
                 Inr (0, c\<lparr>head := (head c + 1) mod maxlen c\<rparr>,
                      h[a := Some (xs[unat (head c) := v])])))"
proof -
  have full: "rb_push c h v = Inr (- 1, c, h)" if "(head c + 1) mod maxlen c = tail c"
    using that next_mod [OF assms(1)] by (simp add: rb_push_def Let_def)
  have nfull: "\<not> (\<exists>c' h'. rb_push c h v = Inr (- 1, c', h'))"
    if "(head c + 1) mod maxlen c \<noteq> tail c"
    using that next_mod [OF assms(1)]
    by (auto simp: rb_push_def Let_def split: sum.splits)
  have wr: "\<exists>a xs. buffer c = Some a \<and> block h a = Some xs \<and>
               rb_push c h v =
                 Inr (0, c\<lparr>head := (head c + 1) mod maxlen c\<rparr>,
                      h[a := Some (xs[unat (head c) := v])])"
    if ne: "(head c + 1) mod maxlen c \<noteq> tail c" and ok: "storage_ok c h"
  proof -
    from ok obtain a xs where a: "buffer c = Some a" and xs: "block h a = Some xs"
      and len: "length xs = unat (maxlen c)" by (rule storage_okE)
    from rb_push_eq [OF a xs len assms(1), of v] ne a xs show ?thesis by simp
  qed
  from full nfull wr show ?thesis by blast
qed

text \<open>
  With capacity 5 and \<open>head = 4\<close> the candidate next head wraps to 0: the push is stored
  in slot 4 when \<open>tail = 2\<close> and refused when \<open>tail = 0\<close>.
\<close>

theorem push_spec_witness:
  "rb_push \<lparr>buffer = Some 0, head = 4, tail = 2, maxlen = 5\<rparr> [Some [1, 2, 3, 4, 5]] 9 =
     Inr (0, \<lparr>buffer = Some 0, head = 0, tail = 2, maxlen = 5\<rparr>, [Some [1, 2, 3, 4, 9]]) \<and>
   rb_push \<lparr>buffer = Some 0, head = 4, tail = 0, maxlen = 5\<rparr> [Some [1, 2, 3, 4, 5]] 9 =
     Inr (- 1, \<lparr>buffer = Some 0, head = 4, tail = 0, maxlen = 5\<rparr>, [Some [1, 2, 3, 4, 5]])"
  using push_spec [of "\<lparr>buffer = Some 0, head = 4, tail = 2, maxlen = 5\<rparr>" "[Some [1, 2, 3, 4, 5]]" 9]
    push_spec [of "\<lparr>buffer = Some 0, head = 4, tail = 0, maxlen = 5\<rparr>" "[Some [1, 2, 3, 4, 5]]" 9]
  by (simp add: storage_ok_def block_def)

section \<open>What a pop does\<close>

text \<open>
  Claim C5 says, of every state, that a pop of a non-empty buffer sets \<open>tail\<close> to
  \<open>(tail + 1) mod capacity\<close>. The code compares and resets instead of dividing, and the two
  differ when \<open>tail\<close> is not below the capacity. With \<open>tail = 7\<close> and capacity 5 the
  read of slot 7 is outside a block of 5 bytes; where the block has 8 bytes the read
  succeeds and \<open>tail\<close> becomes 0, whereas \<open>(7 + 1) mod 5\<close> is 3.
\<close>

theorem pop_spec_counterexample:
  "head \<lparr>buffer = Some 0, head = 0, tail = 7, maxlen = 5\<rparr> \<noteq>
     tail \<lparr>buffer = Some 0, head = 0, tail = 7, maxlen = 5\<rparr> \<and>
   rb_pop \<lparr>buffer = Some 0, head = 0, tail = 7, maxlen = 5\<rparr> [Some [1, 2, 3, 4, 5]] 9 =
     Inl Out_of_bounds \<and>
   rb_pop \<lparr>buffer = Some 0, head = 0, tail = 7, maxlen = 5\<rparr> [Some [1, 2, 3, 4, 5, 6, 7, 8]] 9 =
     Inr (0, \<lparr>buffer = Some 0, head = 0, tail = 0, maxlen = 5\<rparr>, [Some [1, 2, 3, 4, 5, 6, 7, 8]], 8) \<and>
   ((7 :: 64 word) + 1) mod 5 = 3"
  by (simp add: rb_pop_def load_def block_def)

text \<open>
  Claim C5, amended. In every state, whatever the cursors, the capacity and the pointer
  are, \<^verbatim>\<open>rb_pop\<close> returns -1 (Empty) if and only if \<open>head = tail\<close>, and then it changes
  nothing. Otherwise, in every state with \<open>tail\<close> below the capacity and the storage a live
  block of \<open>capacity\<close> bytes, it copies slot \<open>tail\<close> of the storage into the caller's byte,
  sets \<open>tail\<close> to \<open>(tail + 1) mod capacity\<close> and returns 0.
\<close>

theorem pop_spec:
  "((\<exists>c' h' d'. rb_pop c h d = Inr (- 1, c', h', d')) \<longleftrightarrow> head c = tail c) \<and>
   (head c = tail c \<longrightarrow> rb_pop c h d = Inr (- 1, c, h, d)) \<and>
   (head c \<noteq> tail c \<and> tail c < maxlen c \<and> storage_ok c h \<longrightarrow>
      (\<exists>a xs. buffer c = Some a \<and> block h a = Some xs \<and>
         rb_pop c h d =
           Inr (0, c\<lparr>tail := (tail c + 1) mod maxlen c\<rparr>, h, xs ! unat (tail c))))"
proof -
  have emp: "rb_pop c h d = Inr (- 1, c, h, d)" if "head c = tail c"
    using that by (rule pop_same)
  have nemp: "\<not> (\<exists>c' h' d'. rb_pop c h d = Inr (- 1, c', h', d'))" if "head c \<noteq> tail c"
    using that by (auto simp: rb_pop_def Let_def split: sum.splits)
  have rd: "\<exists>a xs. buffer c = Some a \<and> block h a = Some xs \<and>
               rb_pop c h d =
                 Inr (0, c\<lparr>tail := (tail c + 1) mod maxlen c\<rparr>, h, xs ! unat (tail c))"
    if ne: "head c \<noteq> tail c" and lt: "tail c < maxlen c" and ok: "storage_ok c h"
  proof -
    from ok obtain a xs where a: "buffer c = Some a" and xs: "block h a = Some xs"
      and len: "length xs = unat (maxlen c)" by (rule storage_okE)
    from rb_pop_eq [OF a xs len lt, of d] ne a xs show ?thesis by simp
  qed
  from emp nemp rd show ?thesis by blast
qed

text \<open>
  With capacity 5 and \<open>tail = 4\<close>: the pop gives the byte of slot 4 and wraps \<open>tail\<close>
  to 0 when \<open>head = 2\<close>, and reports Empty when \<open>head = 4\<close>. With capacity 0, a null
  pointer and both cursors at 3, outside any storage, it reports Empty as well.
\<close>

theorem pop_spec_witness:
  "rb_pop \<lparr>buffer = Some 0, head = 2, tail = 4, maxlen = 5\<rparr> [Some [1, 2, 3, 4, 5]] 9 =
     Inr (0, \<lparr>buffer = Some 0, head = 2, tail = 0, maxlen = 5\<rparr>, [Some [1, 2, 3, 4, 5]], 5) \<and>
   rb_pop \<lparr>buffer = Some 0, head = 4, tail = 4, maxlen = 5\<rparr> [Some [1, 2, 3, 4, 5]] 9 =
     Inr (- 1, \<lparr>buffer = Some 0, head = 4, tail = 4, maxlen = 5\<rparr>, [Some [1, 2, 3, 4, 5]], 9) \<and>
   rb_pop \<lparr>buffer = None, head = 3, tail = 3, maxlen = 0\<rparr> [] 9 =
     Inr (- 1, \<lparr>buffer = None, head = 3, tail = 3, maxlen = 0\<rparr>, [], 9)"
  using pop_spec [of "\<lparr>buffer = Some 0, head = 2, tail = 4, maxlen = 5\<rparr>" "[Some [1, 2, 3, 4, 5]]" 9]
    pop_spec [of "\<lparr>buffer = Some 0, head = 4, tail = 4, maxlen = 5\<rparr>" "[Some [1, 2, 3, 4, 5]]" 9]
    pop_spec [of "\<lparr>buffer = None, head = 3, tail = 3, maxlen = 0\<rparr>" "[]" 9]
  by (simp add: storage_ok_def block_def)

section \<open>The cursors stay inside the storage\<close>

text \<open>
  Claim C6. Let a buffer be initialized by \<^verbatim>\<open>rb_init\<close> with a capacity \<open>C\<close> of at least 1.
  After every finite sequence of \<^verbatim>\<open>rb_push\<close> and \<^verbatim>\<open>rb_pop\<close> calls, failing or not,
  \<open>head < C\<close> and \<open>tail < C\<close> (and the capacity is still \<open>C\<close>); both cursors are unsigned, so
  0 is a lower bound by type. Where \<^verbatim>\<open>malloc\<close> succeeded, no sequence of calls faults, so
  every sequence does reach a state; where it returned \<^verbatim>\<open>NULL\<close>, the bounds hold in every
  state reached before the first access through the null pointer.
\<close>

theorem cursors_in_range:
  assumes "1 \<le> unat C" and "rb_init c0 h0 C ok junk = (c, h)"
  shows "(ok \<longrightarrow> (\<exists>tr c' h' d'. run (c, h, d) ops = Inr (tr, (c', h', d')))) \<and>
         (\<forall>tr c' h' d'. run (c, h, d) ops = Inr (tr, (c', h', d')) \<longrightarrow>
            head c' < C \<and> tail c' < C \<and> maxlen c' = C)"
proof (cases ok)
  case True
  from assms(1) have nz: "C \<noteq> 0" by auto
  from assms(2) True have init: "rb_init c0 h0 C True junk = (c, h)" by simp
  have i: "rb_inv c h" and m: "maxlen c = C" using rb_init_inv [OF init nz] by simp_all
  from run_inv [OF i, of d ops] obtain tr c' h' d' where
    "run (c, h, d) ops = Inr (tr, (c', h', d'))" "rb_inv c' h'" "maxlen c' = maxlen c"
    by blast
  with m show ?thesis by (auto simp: rb_inv_def)
next
  case False
  with assms(2) have b: "buffer c = None" by (auto simp: rb_init_def malloc_def)
  from assms(1) have pos: "0 < C" by (simp add: word_less_nat_alt)
  have f: "maxlen c = C" "head c = 0" "tail c = 0" using rb_init_fields [OF assms(2)] by simp_all
  have "head c' < C \<and> tail c' < C \<and> maxlen c' = C"
    if "run (c, h, d) ops = Inr (tr, (c', h', d'))" for tr c' h' d'
    using run_null [OF b that] f pos by simp
  with False show ?thesis by blast
qed

text \<open>
  Capacity 5: five pushes (the fifth refused), two pops and three more pushes wrap \<open>head\<close>
  around the end of the storage.
\<close>

theorem cursors_in_range_witness:
  "\<exists>tr c' h' d'.
     run (\<lparr>buffer = Some 0, head = 0, tail = 0, maxlen = 5\<rparr>, [Some [0, 0, 0, 0, 0]], 0)
       [Push 1, Push 2, Push 3, Push 4, Push 5, Pop, Pop, Push 6, Push 7, Push 8] =
     Inr (tr, (c', h', d')) \<and> head c' < 5 \<and> tail c' < 5"
proof -
  have init: "rb_init \<lparr>buffer = None, head = 0, tail = 0, maxlen = 0\<rparr> [] 5 True (\<lambda>_. 0) =
      (\<lparr>buffer = Some 0, head = 0, tail = 0, maxlen = 5\<rparr>, [Some [0, 0, 0, 0, 0]])"
    by (simp add: rb_init_def malloc_def upt_rec)
  have "1 \<le> unat (5 :: 64 word)" by simp
  from cursors_in_range [OF this init, of 0
      "[Push 1, Push 2, Push 3, Push 4, Push 5, Pop, Pop, Push 6, Push 7, Push 8]"]
  show ?thesis by blast
qed

section \<open>At most capacity - 1 elements\<close>

text \<open>
  Claim C1. Let a buffer of capacity \<open>C \<ge> 2\<close> be initialized (the allocation having
  succeeded) and let any sequence of pushes and pops have been made. A run of consecutive
  pushes from the state reached then consists of some \<open>k \<le> C - 1\<close> pushes that return 0
  followed only by pushes that return -1 (Full); and the occupied element count afterwards,
  which is the number of bytes held, is at most \<open>C - 1\<close>.
\<close>

theorem capacity_bound:
  assumes "2 \<le> unat C" and "rb_init c0 h0 C True junk = (c, h)"
    and "run (c, h, d) ops = Inr (tr, w)"
  shows "\<exists>k tr' c' h' d'. run w (map Push vs) = Inr (tr', (c', h', d')) \<and> k \<le> unat C - 1 \<and>
           returns tr' = replicate k 0 @ replicate (length vs - k) (- 1) \<and>
           count c' \<le> unat C - 1 \<and> length (contents c' h') = count c'"
proof -
  from assms(1) have nz: "C \<noteq> 0" by auto
  have i: "rb_inv c h" and m: "maxlen c = C" using rb_init_inv [OF assms(2) nz] by simp_all
  from run_inv [OF i, of d ops] assms(3) obtain c1 h1 d1 where
    w: "w = (c1, h1, d1)" and i1: "rb_inv c1 h1" and m1: "maxlen c1 = maxlen c"
    by auto
  let ?k = "min (length vs) (unat (maxlen c1) - 1 - count c1)"
  from run_pushes [OF i1, of d1 vs] obtain tr' c' h' where
    r: "run (c1, h1, d1) (map Push vs) = Inr (tr', (c', h', d1))" and i': "rb_inv c' h'"
    and m': "maxlen c' = maxlen c1"
    and t: "returns tr' = replicate ?k 0 @ replicate (length vs - ?k) (- 1)"
    by blast
  have k: "?k \<le> unat C - 1" using m m1 by simp
  from i' have "count c' < unat (maxlen c')" by (simp add: rb_inv_def count_less)
  then have c: "count c' \<le> unat C - 1" using m m1 m' by simp
  from i' have l: "length (contents c' h') = count c'" by (simp add: rb_inv_def length_contents)
  from r k t c l show ?thesis unfolding w by blast
qed

text \<open>
  Capacity 5, after two pushes and a pop: of six further pushes the first three succeed
  and the rest are refused.
\<close>

theorem capacity_bound_witness:
  "\<exists>k tr' c' h' d'.
     run (\<lparr>buffer = Some 0, head = 2, tail = 1, maxlen = 5\<rparr>, [Some [10, 20, 0, 0, 0]], 10)
       (map Push [1, 2, 3, 4, 5, 6]) = Inr (tr', (c', h', d')) \<and> k \<le> unat (5 :: 64 word) - 1 \<and>
     returns tr' = replicate k 0 @ replicate (length [1, 2, 3, 4, 5, 6 :: 8 word] - k) (- 1) \<and>
     count c' \<le> unat (5 :: 64 word) - 1 \<and> length (contents c' h') = count c'"
proof -
  have init: "rb_init \<lparr>buffer = None, head = 0, tail = 0, maxlen = 0\<rparr> [] 5 True (\<lambda>_. 0) =
      (\<lparr>buffer = Some 0, head = 0, tail = 0, maxlen = 5\<rparr>, [Some [0, 0, 0, 0, 0]])"
    by (simp add: rb_init_def malloc_def upt_rec)
  have prior: "run (\<lparr>buffer = Some 0, head = 0, tail = 0, maxlen = 5\<rparr>, [Some [0, 0, 0, 0, 0]], 0)
      [Push 10, Push 20, Pop] =
      Inr ([(Push 10, 0, 0), (Push 20, 0, 0), (Pop, 0, 10)],
           (\<lparr>buffer = Some 0, head = 2, tail = 1, maxlen = 5\<rparr>, [Some [10, 20, 0, 0, 0]], 10))"
    by (simp add: rb_push_def rb_pop_def store_def load_def block_def Let_def word_le_nat_alt)
  have "2 \<le> unat (5 :: 64 word)" by simp
  from this init prior show ?thesis by (rule capacity_bound)
qed

section \<open>First in, first out\<close>

text \<open>
  Claim C2. On an initialized buffer (the allocation having succeeded, any capacity), after
  every sequence of push and pop calls the bytes returned by the successful pops are the
  bytes given to the successful pushes, in the same order, first pushed first popped: the
  bytes pushed are the bytes popped followed by the bytes still held in the buffer, oldest
  first. So the bytes popped are the initial segment, of their length, of the bytes
  pushed, and they are all the bytes pushed whenever the buffer ends empty.
\<close>

theorem fifo_order:
  assumes "rb_init c0 h0 C True junk = (c, h)"
  shows "\<exists>tr c' h' d'. run (c, h, d) ops = Inr (tr, (c', h', d')) \<and>
           pushed tr = popped tr @ contents c' h' \<and>
           popped tr = take (length (popped tr)) (pushed tr) \<and>
           (head c' = tail c' \<longrightarrow> popped tr = pushed tr)"
proof -
  have f: "maxlen c = C" "head c = 0" "tail c = 0" using rb_init_fields [OF assms] by simp_all
  then have e: "contents c h = []" by (simp add: contents_empty count_eq_0)
  have "\<exists>tr c' h' d'. run (c, h, d) ops = Inr (tr, (c', h', d')) \<and>
           pushed tr = popped tr @ contents c' h'"
  proof (cases "C = 0")
    case True
    with f run_zero [of c h d ops] e show ?thesis by auto
  next
    case False
    with assms have "rb_inv c h" by (rule rb_init_inv)
    from run_inv [OF this, of d ops] e show ?thesis by auto
  qed
  then obtain tr c' h' d' where r: "run (c, h, d) ops = Inr (tr, (c', h', d'))"
    and p: "pushed tr = popped tr @ contents c' h'" by blast
  have q: "popped tr = take (length (popped tr)) (pushed tr)"
    using p by simp
  have "popped tr = pushed tr" if "head c' = tail c'"
    using that p by (simp add: contents_empty count_eq_0)
  with r p q show ?thesis by blast
qed

text \<open>Capacity 5 and nine calls, the last of which leaves three bytes in the buffer.\<close>

theorem fifo_order_witness:
  "\<exists>tr c' h' d'.
     run (\<lparr>buffer = Some 0, head = 0, tail = 0, maxlen = 5\<rparr>, [Some [0, 0, 0, 0, 0]], 0)
       [Push 1, Push 2, Push 3, Pop, Push 4, Push 5, Push 6, Pop, Pop] =
     Inr (tr, (c', h', d')) \<and>
     pushed tr = popped tr @ contents c' h' \<and>
     popped tr = take (length (popped tr)) (pushed tr) \<and>
     (head c' = tail c' \<longrightarrow> popped tr = pushed tr)"
proof -
  have init: "rb_init \<lparr>buffer = None, head = 0, tail = 0, maxlen = 0\<rparr> [] 5 True (\<lambda>_. 0) =
      (\<lparr>buffer = Some 0, head = 0, tail = 0, maxlen = 5\<rparr>, [Some [0, 0, 0, 0, 0]])"
    by (simp add: rb_init_def malloc_def upt_rec)
  then show ?thesis by (rule fifo_order)
qed

section \<open>Empty after draining\<close>

text \<open>
  Claim C7. Let a buffer of capacity \<open>C\<close> be initialized (the allocation having succeeded),
  let any sequence of calls lead to a state with \<open>head = tail\<close>, and let \<open>0 \<le> k \<le> C - 1\<close>.
  Then \<open>k\<close> pushes followed by \<open>k\<close> pops all return 0, the state reached has
  \<open>head = tail\<close> again, and the next \<^verbatim>\<open>rb_pop\<close> returns -1 (Empty) and changes nothing.
\<close>

theorem empty_after_drain:
  assumes "rb_init c0 h0 C True junk = (ci, hi)"
    and "run (ci, hi, di) ops = Inr (tr, (c, h, d))"
    and "head c = tail c"
    and "int (length vs) \<le> int (unat C) - 1"
  shows "\<exists>tr' c' h' d'.
           run (c, h, d) (map Push vs @ replicate (length vs) Pop) = Inr (tr', (c', h', d')) \<and>
           returns tr' = replicate (length vs + length vs) 0 \<and>
           head c' = tail c' \<and> rb_pop c' h' d' = Inr (- 1, c', h', d')"
proof -
  from assms(4) have len: "length vs \<le> unat C - 1" and pos: "1 \<le> unat C" by arith+
  then have nz: "C \<noteq> 0" by auto
  have ii: "rb_inv ci hi" and mi: "maxlen ci = C" using rb_init_inv [OF assms(1) nz] by simp_all
  from run_inv [OF ii, of di ops] assms(2) have i: "rb_inv c h" and m: "maxlen c = C"
    using mi by auto
  have z: "count c = 0" using assms(3) by (rule count_eq_0)
  have k: "min (length vs) (unat (maxlen c) - 1 - count c) = length vs"
    using len m z by simp
  from run_pushes [OF i, of d vs] obtain tr1 c1 h1 where
    r1: "run (c, h, d) (map Push vs) = Inr (tr1, (c1, h1, d))" and i1: "rb_inv c1 h1"
    and m1: "maxlen c1 = maxlen c"
    and t1': "returns tr1 =
        replicate (min (length vs) (unat (maxlen c) - 1 - count c)) 0 @
        replicate (length vs - min (length vs) (unat (maxlen c) - 1 - count c)) (- 1)"
    and n1': "count c1 = count c + min (length vs) (unat (maxlen c) - 1 - count c)"
    by blast
  have t1: "returns tr1 = replicate (length vs) 0" using t1' unfolding k by simp
  have n1: "count c1 = length vs" using n1' z unfolding k by simp
  have "length vs \<le> count c1" using n1 by simp
  from run_pops [OF i1 this, of d] obtain tr2 c2 h2 d2 where
    r2: "run (c1, h1, d) (replicate (length vs) Pop) = Inr (tr2, (c2, h2, d2))"
    and i2: "rb_inv c2 h2" and t2: "returns tr2 = replicate (length vs) 0"
    and n2: "count c2 = count c1 - length vs" by blast
  have r: "run (c, h, d) (map Push vs @ replicate (length vs) Pop) =
             Inr (tr1 @ tr2, (c2, h2, d2))"
    using r1 r2 by (simp add: run_append)
  have t: "returns (tr1 @ tr2) = replicate (length vs + length vs) 0"
    using t1 t2 by (simp add: returns_def replicate_add)
  have "count c2 = 0" using n1 n2 by simp
  with pop_step [OF i2, of d2] have e: "rb_pop c2 h2 d2 = Inr (- 1, c2, h2, d2)" by simp
  then have "head c2 = tail c2"
    by (auto simp: rb_pop_def Let_def split: if_splits sum.splits)
  with r t e show ?thesis by blast
qed

text \<open>Capacity 5 with both cursors at 2: four pushes, then four pops.\<close>

theorem empty_after_drain_witness:
  "\<exists>tr' c' h' d'.
     run (\<lparr>buffer = Some 0, head = 2, tail = 2, maxlen = 5\<rparr>, [Some [10, 20, 0, 0, 0]], 20)
       (map Push [1, 2, 3, 4] @ replicate (length [1, 2, 3, 4 :: 8 word]) Pop) =
     Inr (tr', (c', h', d')) \<and>
     returns tr' = replicate (length [1, 2, 3, 4 :: 8 word] + length [1, 2, 3, 4 :: 8 word]) 0 \<and>
     head c' = tail c' \<and> rb_pop c' h' d' = Inr (- 1, c', h', d')"
proof -
  have init: "rb_init \<lparr>buffer = None, head = 0, tail = 0, maxlen = 0\<rparr> [] 5 True (\<lambda>_. 0) =
      (\<lparr>buffer = Some 0, head = 0, tail = 0, maxlen = 5\<rparr>, [Some [0, 0, 0, 0, 0]])"
    by (simp add: rb_init_def malloc_def upt_rec)
  have prior: "run (\<lparr>buffer = Some 0, head = 0, tail = 0, maxlen = 5\<rparr>, [Some [0, 0, 0, 0, 0]], 0)
      [Push 10, Push 20, Pop, Pop] =
      Inr ([(Push 10, 0, 0), (Push 20, 0, 0), (Pop, 0, 10), (Pop, 0, 20)],
           (\<lparr>buffer = Some 0, head = 2, tail = 2, maxlen = 5\<rparr>, [Some [10, 20, 0, 0, 0]], 20))"
    by (simp add: rb_push_def rb_pop_def store_def load_def block_def Let_def word_le_nat_alt)
  have e: "head \<lparr>buffer = Some 0, head = 2, tail = 2, maxlen = 5\<rparr> =
           tail \<lparr>buffer = Some 0, head = 2, tail = 2, maxlen = 5\<rparr>" by simp
  have k: "int (length [1, 2, 3, 4 :: 8 word]) \<le> int (unat (5 :: 64 word)) - 1" by simp
  from init prior e k show ?thesis by (rule empty_after_drain)
qed

section \<open>Release\<close>

text \<open>
  Claim C8. When \<^verbatim>\<open>rb_clean\<close> returns, \<open>head\<close>, \<open>tail\<close> and the capacity are 0 and the
  storage pointer is null; calling it again on the state it returned gives that same state
  back, heap included, so nothing is freed a second time. On a struct whose pointer is
  null (storage never allocated) it frees nothing and leaves the heap as it was; on a
  struct whose pointer is a live block it frees that block. \<^verbatim>\<open>rb_clean\<close> after
  \<^verbatim>\<open>rb_clean\<close> equals \<^verbatim>\<open>rb_clean\<close>.
\<close>

theorem clean_idempotent:
  "(rb_clean c h = Inr (c', h') \<longrightarrow>
      buffer c' = None \<and> head c' = 0 \<and> tail c' = 0 \<and> maxlen c' = 0 \<and>
      rb_clean c' h' = Inr (c', h')) \<and>
   (buffer c = None \<longrightarrow>
      rb_clean c h = Inr (c\<lparr>buffer := None, head := 0, tail := 0, maxlen := 0\<rparr>, h)) \<and>
   (\<forall>a xs. buffer c = Some a \<and> block h a = Some xs \<longrightarrow>
      rb_clean c h = Inr (c\<lparr>buffer := None, head := 0, tail := 0, maxlen := 0\<rparr>, h[a := None]) \<and>
      block (h[a := None]) a = None) \<and>
   (case rb_clean c h of Inl e \<Rightarrow> Inl e | Inr (c1, h1) \<Rightarrow> rb_clean c1 h1) = rb_clean c h"
  by (auto simp: rb_clean_def free_def block_def split: option.splits sum.splits if_splits)

text \<open>Releasing a buffer of capacity 5, and releasing it again.\<close>

theorem clean_idempotent_witness:
  "rb_clean \<lparr>buffer = Some 0, head = 2, tail = 1, maxlen = 5\<rparr> [Some [10, 20, 0, 0, 0]] =
     Inr (\<lparr>buffer = None, head = 0, tail = 0, maxlen = 0\<rparr>, [None]) \<and>
   rb_clean \<lparr>buffer = None, head = 0, tail = 0, maxlen = 0\<rparr> [None] =
     Inr (\<lparr>buffer = None, head = 0, tail = 0, maxlen = 0\<rparr>, [None])"
  using clean_idempotent
    [where c = "\<lparr>buffer = Some 0, head = 2, tail = 1, maxlen = 5\<rparr>"
       and h = "[Some [10, 20, 0, 0, 0]]"
       and c' = "\<lparr>buffer = None, head = 0, tail = 0, maxlen = 0\<rparr>" and h' = "[None]"]
  by (simp add: block_def)

section \<open>Capacity 0\<close>

text \<open>
  Claim C9 says, of every state whose capacity is 0, that \<^verbatim>\<open>rb_push\<close> returns Full and
  \<^verbatim>\<open>rb_pop\<close> returns Empty without touching the storage. With capacity 0 the candidate
  next head is always 0, so \<^verbatim>\<open>rb_push\<close> refuses only when \<open>tail = 0\<close>, and \<^verbatim>\<open>rb_pop\<close>
  refuses only when \<open>head = tail\<close>. With \<open>tail = 1\<close> the push writes slot 0 and returns 0,
  or writes through the null pointer; with \<open>head = 1\<close> and \<open>tail = 0\<close> the pop reads
  slot 0 and returns 0, or reads through the null pointer.
\<close>

theorem zero_capacity_counterexample:
  "maxlen \<lparr>buffer = Some 0, head = 0, tail = 1, maxlen = 0\<rparr> = 0 \<and>
   rb_push \<lparr>buffer = Some 0, head = 0, tail = 1, maxlen = 0\<rparr> [Some [3, 4]] 7 =
     Inr (0, \<lparr>buffer = Some 0, head = 0, tail = 1, maxlen = 0\<rparr>, [Some [7, 4]]) \<and>
   rb_push \<lparr>buffer = None, head = 0, tail = 1, maxlen = 0\<rparr> [None] 7 = Inl Null_deref \<and>
   maxlen \<lparr>buffer = Some 0, head = 1, tail = 0, maxlen = 0\<rparr> = 0 \<and>
   rb_pop \<lparr>buffer = Some 0, head = 1, tail = 0, maxlen = 0\<rparr> [Some [3, 4]] 9 =
     Inr (0, \<lparr>buffer = Some 0, head = 1, tail = 0, maxlen = 0\<rparr>, [Some [3, 4]], 3) \<and>
   rb_pop \<lparr>buffer = None, head = 1, tail = 0, maxlen = 0\<rparr> [None] 9 = Inl Null_deref"
  by (simp add: rb_push_def rb_pop_def store_def load_def block_def Let_def)

text \<open>
  Claim C9, amended. In every state whose capacity is 0, \<^verbatim>\<open>rb_push\<close> returns -1 (Full)
  if \<open>tail = 0\<close> and \<^verbatim>\<open>rb_pop\<close> returns -1 (Empty) if \<open>head = tail\<close>; the call then
  leaves the struct and the heap as they were and makes no access to the storage (it
  returns, and does not fault, whatever the pointer is). A buffer initialized with size 0,
  whether or not \<^verbatim>\<open>malloc\<close> gave a block, and a buffer after \<^verbatim>\<open>rb_clean\<close> have capacity
  0 and \<open>head = tail = 0\<close>, so both calls are refused there. The wrap-around of the source
  is a comparison, as in the definitions above: there is no division to be undefined.
\<close>

theorem zero_capacity:
  "(maxlen c = 0 \<and> tail c = 0 \<longrightarrow> rb_push c h v = Inr (- 1, c, h)) \<and>
   (maxlen c = 0 \<and> head c = tail c \<longrightarrow> rb_pop c h d = Inr (- 1, c, h, d)) \<and>
   (rb_init cp hp 0 ok junk = (c, h) \<longrightarrow>
      maxlen c = 0 \<and> head c = 0 \<and> tail c = 0 \<and>
      rb_push c h v = Inr (- 1, c, h) \<and> rb_pop c h d = Inr (- 1, c, h, d)) \<and>
   (rb_clean cp hp = Inr (c, h) \<longrightarrow>
      maxlen c = 0 \<and> head c = 0 \<and> tail c = 0 \<and>
      rb_push c h v = Inr (- 1, c, h) \<and> rb_pop c h d = Inr (- 1, c, h, d))"
proof -
  have i: "maxlen c = 0 \<and> head c = 0 \<and> tail c = 0" if "rb_init cp hp 0 ok junk = (c, h)"
    using rb_init_fields [OF that] by simp
  have k: "maxlen c = 0 \<and> head c = 0 \<and> tail c = 0" if "rb_clean cp hp = Inr (c, h)"
    using that by (auto simp: rb_clean_def split: sum.splits)
  from i k show ?thesis by (auto simp: push_zero pop_same)
qed

text \<open>A buffer of capacity 5 after \<^verbatim>\<open>rb_clean\<close>.\<close>

theorem zero_capacity_witness:
  "rb_push \<lparr>buffer = None, head = 0, tail = 0, maxlen = 0\<rparr> [None] 7 =
     Inr (- 1, \<lparr>buffer = None, head = 0, tail = 0, maxlen = 0\<rparr>, [None]) \<and>
   rb_pop \<lparr>buffer = None, head = 0, tail = 0, maxlen = 0\<rparr> [None] 9 =
     Inr (- 1, \<lparr>buffer = None, head = 0, tail = 0, maxlen = 0\<rparr>, [None], 9)"
proof -
  have "rb_clean \<lparr>buffer = Some 0, head = 2, tail = 1, maxlen = 5\<rparr> [Some [10, 20, 0, 0, 0]] =
     Inr (\<lparr>buffer = None, head = 0, tail = 0, maxlen = 0\<rparr>, [None])"
    by (simp add: rb_clean_def free_def block_def)
  with zero_capacity
    [where cp = "\<lparr>buffer = Some 0, head = 2, tail = 1, maxlen = 5\<rparr>"
       and hp = "[Some [10, 20, 0, 0, 0]]"
       and c = "\<lparr>buffer = None, head = 0, tail = 0, maxlen = 0\<rparr>" and h = "[None]"
       and v = 7 and d = 9]
  show ?thesis by blast
qed

section \<open>What the calls leave alone\<close>

text \<open>
  Claim C10. In every state, when \<^verbatim>\<open>rb_push\<close> returns it has changed neither \<open>tail\<close> nor
  the capacity (nor the pointer), every block has the length it had, and every byte of the
  heap other than slot \<open>head\<close> (the old head) of the storage is as it was. When
  \<^verbatim>\<open>rb_pop\<close> returns it has changed neither \<open>head\<close> nor the capacity (nor the pointer)
  and the heap is as it was, the popped slot included. Both calls do return when the
  storage is a live block of \<open>capacity\<close> bytes and the cursor they use is below the capacity.
\<close>

theorem frame_effects:
  "(rb_push c h v = Inr (r, c', h') \<longrightarrow>
      tail c' = tail c \<and> maxlen c' = maxlen c \<and> buffer c' = buffer c \<and>
      (\<forall>a. map_option length (block h' a) = map_option length (block h a)) \<and>
      (\<forall>a i. (Some a, i) \<noteq> (buffer c, unat (head c)) \<longrightarrow> byte h' a i = byte h a i)) \<and>
   (rb_pop c h d = Inr (ra, cb, hb, db) \<longrightarrow>
      head cb = head c \<and> maxlen cb = maxlen c \<and> buffer cb = buffer c \<and> hb = h) \<and>
   (storage_ok c h \<and> head c < maxlen c \<longrightarrow> (\<exists>r c' h'. rb_push c h v = Inr (r, c', h'))) \<and>
   (storage_ok c h \<and> tail c < maxlen c \<longrightarrow> (\<exists>r c' h' d'. rb_pop c h d = Inr (r, c', h', d')))"
proof -
  have store_frame:
    "(\<forall>a'. map_option length (block h1 a') = map_option length (block h a')) \<and>
     (\<forall>a' i'. (Some a', i') \<noteq> (p, unat i) \<longrightarrow> byte h1 a' i' = byte h a' i')"
    if "store h p i v = Inr h1" for p i h1
    using that
    by (auto simp: store_def byte_def block_def nth_list_update
        split: option.splits if_splits)
  have push: "tail c' = tail c \<and> maxlen c' = maxlen c \<and> buffer c' = buffer c \<and>
      (\<forall>a. map_option length (block h' a) = map_option length (block h a)) \<and>
      (\<forall>a i. (Some a, i) \<noteq> (buffer c, unat (head c)) \<longrightarrow> byte h' a i = byte h a i)"
    if p: "rb_push c h v = Inr (r, c', h')"
  proof (cases "h' = h \<and> c' = c")
    case True
    then show ?thesis by simp
  next
    case False
    with p have "store h (buffer c) (head c) v = Inr h'" and
      "tail c' = tail c \<and> maxlen c' = maxlen c \<and> buffer c' = buffer c"
      by (auto simp: rb_push_def Let_def split: if_splits sum.splits)
    with store_frame [of "buffer c" "head c" h'] show ?thesis by blast
  qed
  have pop: "head cb = head c \<and> maxlen cb = maxlen c \<and> buffer cb = buffer c \<and> hb = h"
    if "rb_pop c h d = Inr (ra, cb, hb, db)"
    using that by (auto simp: rb_pop_def Let_def split: if_splits sum.splits)
  have tot_push: "\<exists>r c' h'. rb_push c h v = Inr (r, c', h')"
    if "storage_ok c h" "head c < maxlen c"
  proof -
    from that(1) obtain a xs where "buffer c = Some a" "block h a = Some xs"
      "length xs = unat (maxlen c)" by (rule storage_okE)
    from rb_push_eq [OF this that(2), of v] show ?thesis by (auto split: if_splits)
  qed
  have tot_pop: "\<exists>r c' h' d'. rb_pop c h d = Inr (r, c', h', d')"
    if "storage_ok c h" "tail c < maxlen c"
  proof -
    from that(1) obtain a xs where "buffer c = Some a" "block h a = Some xs"
      "length xs = unat (maxlen c)" by (rule storage_okE)
    from rb_pop_eq [OF this that(2), of d] show ?thesis by (auto split: if_splits)
  qed
  from push pop tot_push tot_pop show ?thesis by blast
qed

text \<open>
  A heap of two blocks, the storage of capacity 3 and another one: a push changes slot 1
  of the storage only, and a pop changes no byte.
\<close>

theorem frame_effects_witness:
  "rb_push \<lparr>buffer = Some 0, head = 1, tail = 0, maxlen = 3\<rparr> [Some [1, 2, 3], Some [9]] 7 =
     Inr (0, \<lparr>buffer = Some 0, head = 2, tail = 0, maxlen = 3\<rparr>, [Some [1, 7, 3], Some [9]]) \<and>
   byte [Some [1, 7, 3], Some [9]] 0 0 = byte [Some [1, 2, 3], Some [9]] 0 0 \<and>
   byte [Some [1, 7, 3], Some [9]] 0 2 = byte [Some [1, 2, 3], Some [9]] 0 2 \<and>
   byte [Some [1, 7, 3], Some [9]] 1 0 = byte [Some [1, 2, 3], Some [9]] 1 0 \<and>
   rb_pop \<lparr>buffer = Some 0, head = 1, tail = 0, maxlen = 3\<rparr> [Some [1, 2, 3], Some [9]] 9 =
     Inr (0, \<lparr>buffer = Some 0, head = 1, tail = 1, maxlen = 3\<rparr>, [Some [1, 2, 3], Some [9]], 1)"
  using frame_effects
    [where c = "\<lparr>buffer = Some 0, head = 1, tail = 0, maxlen = 3\<rparr>"
       and h = "[Some [1, 2, 3], Some [9]]" and v = 7 and r = 0
       and c' = "\<lparr>buffer = Some 0, head = 2, tail = 0, maxlen = 3\<rparr>"
       and h' = "[Some [1, 7, 3], Some [9]]" and d = 9 and ra = 0
       and cb = "\<lparr>buffer = Some 0, head = 1, tail = 1, maxlen = 3\<rparr>"
       and hb = "[Some [1, 2, 3], Some [9]]" and db = 1]
  by (simp add: rb_push_def rb_pop_def store_def load_def block_def word_le_nat_alt)

end
